theory Spec2Isabelle
  imports Main "HOL-Library.Sublist"
begin

section \<open>The world the script runs in\<close>

text \<open>
  \<^verbatim>\<open>icon_resize.py\<close> is a straight-line script: it tests a path, opens an image, and
  in a loop over a fixed table creates directories, resizes and saves. Everything it
  does is an effect on the file system and on standard output, so the model passes a
  world explicitly: the file tree, the working directory, the lines printed and a log
  of the system calls that succeeded (opening and closing the source, every directory
  made, every file written), in the order they happened.

  A node of the file tree is addressed by the list of its path components from the
  root; there are no symbolic or hard links, no permissions and no disk quota.
\<close>

type_synonym path = "string list"

datatype fmt = PNG | JPEG | GIF | BMP

datatype resampling = NEAREST | BOX | BILINEAR | HAMMING | BICUBIC | LANCZOS

text \<open>
  Pixel content is kept symbolic: the content of a file as found on disk is opaque,
  and \<open>Resampled f box size r\<close> is the raster obtained from \<open>r\<close> by resampling the
  region \<open>box\<close> (left, upper, right, lower) to \<open>size\<close> with filter \<open>f\<close>.
\<close>

datatype raster =
    Pixels nat
  | Resampled resampling "int \<times> int \<times> int \<times> int" "int \<times> int" raster

datatype filedata =
    Encoded fmt "int \<times> int" raster
  | Other nat

datatype node = File filedata | Dir

record image =
  im_size :: "int \<times> int"
  im_format :: "fmt option"
  im_data :: raster

datatype exc =
    FileNotFoundError
  | NotADirectoryError
  | IsADirectoryError
  | FileExistsError
  | UnidentifiedImageError
  | ValueError

datatype event = Open path | Mkdir path | Write path | Close

text \<open>
  The texts the script prints are Hebrew sentences; a printed line is modelled by the
  statement that printed it together with the values it interpolates.
\<close>

datatype message =
    MsgNotFound string
  | MsgSaveHint
  | MsgProcessing string
  | MsgCreated string int int
  | MsgDone

record world =
  files :: "path \<rightharpoonup> node"
  cwd :: path
  stdout :: "message list"
  trace :: "event list"

type_synonym outcome = "exc option \<times> world"

definition and_then :: "outcome \<Rightarrow> (world \<Rightarrow> outcome) \<Rightarrow> outcome" where
  "and_then r f = (case r of (Some e, w) \<Rightarrow> (Some e, w) | (None, w) \<Rightarrow> f w)"

definition print :: "message \<Rightarrow> world \<Rightarrow> world" where
  "print m w = w\<lparr>stdout := stdout w @ [m]\<rparr>"

section \<open>Path strings (posixpath)\<close>

definition sep :: char where
  "sep = CHR ''/''"

definition rstrip_sep :: "string \<Rightarrow> string" where
  "rstrip_sep s = rev (dropWhile (\<lambda>c. c = sep) (rev s))"

text \<open>
  \<^verbatim>\<open>posixpath.split\<close>: the tail is what follows the last slash, the head what
  precedes it, with trailing slashes stripped unless the head is all slashes.
\<close>

definition os_path_split :: "string \<Rightarrow> string \<times> string" where
  "os_path_split p =
     (let head = rev (dropWhile (\<lambda>c. c \<noteq> sep) (rev p));
          tail = rev (takeWhile (\<lambda>c. c \<noteq> sep) (rev p))
      in (if head \<noteq> [] \<and> \<not> (\<forall>c \<in> set head. c = sep) then rstrip_sep head else head, tail))"

definition os_path_dirname :: "string \<Rightarrow> string" where
  "os_path_dirname p = fst (os_path_split p)"

text \<open>\<^verbatim>\<open>posixpath.join(a, *p)\<close>: one step of its loop, then the loop.\<close>

definition join2 :: "string \<Rightarrow> string \<Rightarrow> string" where
  "join2 path b =
     (if b \<noteq> [] \<and> hd b = sep then b
      else if path = [] \<or> last path = sep then path @ b
      else path @ [sep] @ b)"

definition os_path_join :: "string \<Rightarrow> string list \<Rightarrow> string" where
  "os_path_join a p = foldl join2 a p"

text \<open>
  The extension by which \<^verbatim>\<open>Image.save\<close> chooses the encoder:
  \<^verbatim>\<open>os.path.splitext(filename)[1].lower()\<close>. Leading dots of the base name do not
  start an extension.
\<close>

definition ascii_lower :: "char \<Rightarrow> char" where
  "ascii_lower c =
     (let n = (of_char c :: nat) in if 65 \<le> n \<and> n \<le> 90 then char_of (n + 32) else c)"

definition splitext_ext :: "string \<Rightarrow> string" where
  "splitext_ext p =
     (let base = snd (os_path_split p);
          body = dropWhile (\<lambda>c. c = CHR ''.'') base
      in if CHR ''.'' \<in> set body
         then CHR ''.'' # rev (takeWhile (\<lambda>c. c \<noteq> CHR ''.'') (rev body))
         else [])"

definition registered_extension :: "string \<Rightarrow> fmt option" where
  "registered_extension e =
     (if e = ''.png'' then Some PNG
      else if e = ''.jpg'' \<or> e = ''.jpeg'' then Some JPEG
      else if e = ''.gif'' then Some GIF
      else if e = ''.bmp'' then Some BMP
      else None)"

section \<open>Path resolution\<close>

text \<open>\<^verbatim>\<open>str.split('/')\<close>: the components of a path string, empty ones included.\<close>

fun split_sep :: "string \<Rightarrow> string list" where
  "split_sep [] = [[]]"
| "split_sep (c # cs) =
     (if c = sep then [] # split_sep cs
      else (case split_sep cs of [] \<Rightarrow> [[c]] | x # xs \<Rightarrow> (c # x) # xs))"

definition step :: "path \<Rightarrow> string \<Rightarrow> path" where
  "step cur c =
     (if c = [] \<or> c = ''.'' then cur
      else if c = ''..'' then butlast cur
      else cur @ [c])"

text \<open>
  The kernel's walk: before each component is followed the node reached so far must
  be a directory. The node named by the last component need not exist.
\<close>

fun walk :: "(path \<rightharpoonup> node) \<Rightarrow> path \<Rightarrow> string list \<Rightarrow> exc + path" where
  "walk fs cur [] = Inr cur"
| "walk fs cur (c # cs) =
     (case fs cur of
        None \<Rightarrow> Inl FileNotFoundError
      | Some (File d) \<Rightarrow> Inl NotADirectoryError
      | Some Dir \<Rightarrow> walk fs (step cur c) cs)"

definition resolve :: "world \<Rightarrow> string \<Rightarrow> exc + path" where
  "resolve w p =
     (if p = [] then Inl FileNotFoundError
      else walk (files w) (if hd p = sep then [] else cwd w) (split_sep p))"

section \<open>The library calls the script makes\<close>

definition os_path_exists :: "world \<Rightarrow> string \<Rightarrow> bool" where
  "os_path_exists w p =
     (case resolve w p of Inl e \<Rightarrow> False | Inr q \<Rightarrow> files w q \<noteq> None)"

definition os_mkdir :: "string \<Rightarrow> world \<Rightarrow> outcome" where
  "os_mkdir p w =
     (case resolve w p of
        Inl e \<Rightarrow> (Some e, w)
      | Inr q \<Rightarrow>
          if files w q \<noteq> None then (Some FileExistsError, w)
          else if q = [] \<or> files w (butlast q) \<noteq> Some Dir then (Some FileNotFoundError, w)
          else (None, w\<lparr>files := (files w)(q \<mapsto> Dir), trace := trace w @ [Mkdir q]\<rparr>))"

text \<open>
  \<^verbatim>\<open>os.makedirs(name)\<close> with \<^verbatim>\<open>exist_ok=False\<close>, as the \<^verbatim>\<open>os\<close> module writes it:
  \<^verbatim>\<open>
  head, tail = path.split(name)
  if not tail:
      head, tail = path.split(head)
  if head and tail and not path.exists(head):
      try:
          makedirs(head)
      except FileExistsError:
          pass
      if tail == curdir:
          return
  mkdir(name)
  \<close>
\<close>

definition makedirs_split :: "string \<Rightarrow> string \<times> string" where
  "makedirs_split name =
     (if snd (os_path_split name) = [] then os_path_split (fst (os_path_split name))
      else os_path_split name)"

lemma length_rstrip_sep: "length (rstrip_sep s) \<le> length s"
  by (simp add: rstrip_sep_def) (metis length_dropWhile_le length_rev)

lemma length_os_path_split:
  "length (fst (os_path_split p)) + length (snd (os_path_split p)) \<le> length p"
proof -
  let ?h = "rev (dropWhile (\<lambda>c. c \<noteq> sep) (rev p))"
  let ?t = "rev (takeWhile (\<lambda>c. c \<noteq> sep) (rev p))"
  have "length ?h + length ?t = length p"
    by (metis add.commute length_append length_rev takeWhile_dropWhile_id)
  moreover have "length (fst (os_path_split p)) \<le> length ?h"
    using length_rstrip_sep [of ?h] by (simp add: os_path_split_def Let_def)
  moreover have "snd (os_path_split p) = ?t"
    by (simp add: os_path_split_def Let_def)
  ultimately show ?thesis by simp
qed

lemma makedirs_split_shorter:
  "snd (makedirs_split name) \<noteq> [] \<Longrightarrow> length (fst (makedirs_split name)) < length name"
proof -
  assume t: "snd (makedirs_split name) \<noteq> []"
  show ?thesis
  proof (cases "snd (os_path_split name) = []")
    case True
    then have "length (fst (makedirs_split name)) + length (snd (makedirs_split name))
        \<le> length (fst (os_path_split name))"
      using length_os_path_split [of "fst (os_path_split name)"] by (simp add: makedirs_split_def)
    moreover have "length (fst (os_path_split name)) \<le> length name"
      using length_os_path_split [of name] by simp
    ultimately show ?thesis using t by (cases "snd (makedirs_split name)") auto
  next
    case False
    then have "length (fst (makedirs_split name)) + length (snd (makedirs_split name)) \<le> length name"
      using length_os_path_split [of name] by (simp add: makedirs_split_def)
    then show ?thesis using t by (cases "snd (makedirs_split name)") auto
  qed
qed

function os_makedirs :: "string \<Rightarrow> world \<Rightarrow> outcome" where
  "os_makedirs name w =
     (if fst (makedirs_split name) \<noteq> [] \<and> snd (makedirs_split name) \<noteq> []
         \<and> \<not> os_path_exists w (fst (makedirs_split name))
      then (case os_makedirs (fst (makedirs_split name)) w of
              (Some e, w') \<Rightarrow> if e = FileExistsError then os_mkdir name w' else (Some e, w')
            | (None, w') \<Rightarrow> if snd (makedirs_split name) = ''.'' then (None, w') else os_mkdir name w')
      else os_mkdir name w)"
  by pat_completeness auto
termination
  by (relation "measure (\<lambda>(name, w). length name)") (auto simp: makedirs_split_shorter)

text \<open>
  \<^verbatim>\<open>Image.open\<close>: the file is identified by its content, whatever its name says.
\<close>

definition Image_open :: "string \<Rightarrow> world \<Rightarrow> (exc + image) \<times> world" where
  "Image_open p w =
     (case resolve w p of
        Inl e \<Rightarrow> (Inl e, w)
      | Inr q \<Rightarrow>
          (case files w q of
             None \<Rightarrow> (Inl FileNotFoundError, w)
           | Some Dir \<Rightarrow> (Inl IsADirectoryError, w)
           | Some (File (Other n)) \<Rightarrow> (Inl UnidentifiedImageError, w)
           | Some (File (Encoded f sz px)) \<Rightarrow>
               (Inr \<lparr>im_size = sz, im_format = Some f, im_data = px\<rparr>,
                w\<lparr>trace := trace w @ [Open q]\<rparr>)))"

definition Image_close :: "world \<Rightarrow> world" where
  "Image_close w = w\<lparr>trace := trace w @ [Close]\<rparr>"

text \<open>
  \<^verbatim>\<open>img.resize(size, resample)\<close> with no \<^verbatim>\<open>box\<close> argument: the region resampled is
  the whole image, \<^verbatim>\<open>(0, 0) + self.size\<close>. The result is a new image of exactly
  \<open>size\<close> that belongs to no file format yet.
\<close>

definition resize :: "image \<Rightarrow> int \<times> int \<Rightarrow> resampling \<Rightarrow> exc + image" where
  "resize img size' flt =
     (if fst size' \<le> 0 \<or> snd size' \<le> 0 then Inl ValueError
      else Inr \<lparr>im_size = size', im_format = None,
                im_data = Resampled flt (0, 0, fst (im_size img), snd (im_size img)) size'
                            (im_data img)\<rparr>)"

text \<open>
  \<^verbatim>\<open>img.save(filename)\<close> with no \<^verbatim>\<open>format\<close> argument: the encoder is the one
  registered for the file name's extension. The file is created or truncated.
\<close>

definition save :: "image \<Rightarrow> string \<Rightarrow> world \<Rightarrow> outcome" where
  "save img p w =
     (case registered_extension (map ascii_lower (splitext_ext p)) of
        None \<Rightarrow> (Some ValueError, w)
      | Some f \<Rightarrow>
          (case resolve w p of
             Inl e \<Rightarrow> (Some e, w)
           | Inr q \<Rightarrow>
               if files w q = Some Dir then (Some IsADirectoryError, w)
               else if q = [] \<or> files w (butlast q) \<noteq> Some Dir then (Some FileNotFoundError, w)
               else (None, w\<lparr>files := (files w)(q \<mapsto> File (Encoded f (im_size img) (im_data img))),
                              trace := trace w @ [Write q]\<rparr>)))"

section \<open>The script\<close>

definition original_image_path :: string where
  "original_image_path =
     ''/Users/elad/code/playground/Arduino/Android/MorganaSchedualer/images/logo.png''"

definition main_dir :: string where
  "main_dir = os_path_dirname original_image_path"

text \<open>A Python dict iterates in insertion order, so the table is an association list.\<close>

definition icon_sizes :: "(string \<times> (int \<times> int)) list" where
  "icon_sizes =
     [(''mipmap-xxxhdpi'', (192, 192)),
      (''mipmap-xxhdpi'', (144, 144)),
      (''mipmap-xhdpi'', (96, 96)),
      (''mipmap-hdpi'', (72, 72)),
      (''mipmap-mdpi'', (48, 48))]"

definition icon_dir :: "string \<Rightarrow> string" where
  "icon_dir folder_name = os_path_join main_dir [''../app/src/main/res'', folder_name]"

definition output_filename :: "string \<Rightarrow> string" where
  "output_filename folder_name = os_path_join (icon_dir folder_name) [''ic_launcher.png'']"

definition ensure_dir :: "string \<Rightarrow> world \<Rightarrow> outcome" where
  "ensure_dir p w = (if \<not> os_path_exists w p then os_makedirs p w else (None, w))"

text \<open>The body of the loop, lines 29 to 43, for one entry of the table.\<close>

definition process_icon :: "image \<Rightarrow> string \<times> (int \<times> int) \<Rightarrow> world \<Rightarrow> outcome" where
  "process_icon img entry w =
     (let folder_name = fst entry; size' = snd entry in
      and_then (ensure_dir folder_name w) (\<lambda>w1.
        case resize img size' LANCZOS of
          Inl e \<Rightarrow> (Some e, w1)
        | Inr resized_img \<Rightarrow>
            and_then (ensure_dir (icon_dir folder_name) w1) (\<lambda>w2.
            and_then (save resized_img (output_filename folder_name) w2) (\<lambda>w3.
              (None, print (MsgCreated (output_filename folder_name) (fst size') (snd size')) w3)))))"

fun for_icons :: "image \<Rightarrow> (string \<times> (int \<times> int)) list \<Rightarrow> world \<Rightarrow> outcome" where
  "for_icons img [] w = (None, w)"
| "for_icons img (entry # rest) w = and_then (process_icon img entry w) (for_icons img rest)"

text \<open>
  The whole script. The \<^verbatim>\<open>with\<close> block closes the image when it is left, also by
  an exception; the last line is printed after the block, inside the \<^verbatim>\<open>else\<close>.
\<close>

definition run :: "world \<Rightarrow> outcome" where
  "run w =
     (if \<not> os_path_exists w original_image_path
      then (None, print MsgSaveHint (print (MsgNotFound original_image_path) w))
      else (case Image_open original_image_path w of
              (Inl e, w1) \<Rightarrow> (Some e, w1)
            | (Inr img, w1) \<Rightarrow>
                (case for_icons img icon_sizes (print (MsgProcessing original_image_path) w1) of
                   (Some e, w2) \<Rightarrow> (Some e, Image_close w2)
                 | (None, w2) \<Rightarrow> (None, print MsgDone (Image_close w2)))))"

section \<open>Vocabulary of the proofs\<close>

definition lexical :: "path \<Rightarrow> string \<Rightarrow> path" where
  "lexical wd p = foldl step (if hd p = sep then [] else wd) (split_sep p)"

definition since :: "world \<Rightarrow> world \<Rightarrow> event list" where
  "since w w' = drop (length (trace w)) (trace w')"

definition is_file :: "node option \<Rightarrow> bool" where
  "is_file n = (case n of Some (File d) \<Rightarrow> True | _ \<Rightarrow> False)"

definition evolves :: "world \<Rightarrow> world \<Rightarrow> bool" where
  "evolves w w' \<longleftrightarrow>
     cwd w' = cwd w \<and>
     trace w' = trace w @ since w w' \<and>
     (\<forall>q. files w q = Some Dir \<longrightarrow> files w' q = Some Dir) \<and>
     (\<forall>q d. files w q = Some (File d) \<longrightarrow> files w' q = Some (File d) \<or> Write q \<in> set (since w w')) \<and>
     (\<forall>q. files w q = None \<longrightarrow>
        files w' q = None \<or> (files w' q = Some Dir \<and> Mkdir q \<in> set (since w w')) \<or> Write q \<in> set (since w w')) \<and>
     (\<forall>q. Mkdir q \<in> set (since w w') \<longrightarrow> files w q = None \<and> files w' q = Some Dir) \<and>
     (\<forall>q. Write q \<in> set (since w w') \<longrightarrow>
        is_file (files w' q) \<and> files w' (butlast q) = Some Dir \<and> files w q \<noteq> Some Dir)"

definition project_path :: path where
  "project_path = [''Users'', ''elad'', ''code'', ''playground'', ''Arduino'', ''Android'', ''MorganaSchedualer'']"

definition source_path :: path where
  "source_path = project_path @ [''images'', ''logo.png'']"

definition res_path :: path where
  "res_path = project_path @ [''app'', ''src'', ''main'', ''res'']"

definition out_dir :: "string \<Rightarrow> path" where
  "out_dir folder_name = res_path @ [folder_name]"

definition out_path :: "string \<Rightarrow> path" where
  "out_path folder_name = res_path @ [folder_name, ''ic_launcher.png'']"

function makedirs_names :: "string \<Rightarrow> string list" where
  "makedirs_names name =
     name # (if fst (makedirs_split name) \<noteq> [] \<and> snd (makedirs_split name) \<noteq> []
             then makedirs_names (fst (makedirs_split name)) else [])"
  by pat_completeness auto
termination
  by (relation "measure length") (auto simp: makedirs_split_shorter)

declare makedirs_names.simps [simp del]
declare os_makedirs.simps [simp del]

definition is_mkdir :: "event \<Rightarrow> bool" where
  "is_mkdir e = (case e of Mkdir q \<Rightarrow> True | _ \<Rightarrow> False)"

fun mkdir_before_write :: "event list \<Rightarrow> bool" where
  "mkdir_before_write [] = True"
| "mkdir_before_write (e # es) =
     ((case e of Write q \<Rightarrow> Mkdir (butlast q) \<notin> set es | _ \<Rightarrow> True) \<and> mkdir_before_write es)"

definition resampled :: "image \<Rightarrow> int \<times> int \<Rightarrow> filedata" where
  "resampled img size' =
     Encoded PNG size' (Resampled LANCZOS (0, 0, fst (im_size img), snd (im_size img)) size' (im_data img))"

definition resized_img :: "image \<Rightarrow> int \<times> int \<Rightarrow> image" where
  "resized_img img size' =
     \<lparr>im_size = size', im_format = None,
      im_data = Resampled LANCZOS (0, 0, fst (im_size img), snd (im_size img)) size' (im_data img)\<rparr>"

definition made_for :: "path \<Rightarrow> string \<Rightarrow> path set" where
  "made_for wd folder_name =
     insert (wd @ [folder_name]) (lexical wd ` set (makedirs_names (icon_dir folder_name)))"

definition io_events :: "event list \<Rightarrow> event list" where
  "io_events evs = filter (\<lambda>e. \<not> is_mkdir e) evs"

definition images_path :: path where
  "images_path = project_path @ [''images'']"

definition dir_chain :: "path \<Rightarrow> (path \<times> node) list" where
  "dir_chain p = map (\<lambda>n. (take n p, Dir)) [0..<Suc (length p)]"

definition world_with :: "(path \<times> node) list \<Rightarrow> path \<Rightarrow> world" where
  "world_with nodes wd = \<lparr>files = map_of nodes, cwd = wd, stdout = [], trace = []\<rparr>"

definition bare_world :: world where
  "bare_world = world_with [([], Dir)] []"

definition photo_world :: world where
  "photo_world =
     world_with
       (dir_chain images_path @ dir_chain (out_dir ''mipmap-mdpi'') @
        [(source_path, File (Encoded JPEG (640, 480) (Pixels 0))),
         (out_path ''mipmap-mdpi'', File (Other 7))])
       images_path"

definition blocked_world :: world where
  "blocked_world =
     world_with
       (dir_chain images_path @
        [(source_path, File (Encoded PNG (512, 512) (Pixels 0))),
         (project_path @ [''app''], File (Other 0))])
       images_path"

fun written :: "event list \<Rightarrow> path list" where
  "written [] = []"
| "written (e # es) = (case e of Write q \<Rightarrow> q # written es | _ \<Rightarrow> written es)"

definition output_paths :: "path list" where
  "output_paths = map (\<lambda>e. out_path (fst e)) icon_sizes"

fun encoding :: "node option \<Rightarrow> fmt option" where
  "encoding (Some (File (Encoded f sz px))) = Some f"
| "encoding n = None"



section \<open>Lemmas\<close>

lemma walk_lexical: "walk fs cur cs = Inr q \<Longrightarrow> q = foldl step cur cs"
  by (induction cs arbitrary: cur) (auto split: option.splits node.splits)

lemma resolve_lexical: "resolve w p = Inr q \<Longrightarrow> q = lexical (cwd w) p"
  by (auto simp: resolve_def lexical_def split: if_splits dest: walk_lexical)

lemma walk_mono:
  "(\<And>q. fs q = Some Dir \<Longrightarrow> fs' q = Some Dir) \<Longrightarrow> walk fs cur cs = Inr q \<Longrightarrow> walk fs' cur cs = Inr q"
  by (induction cs arbitrary: cur) (auto split: option.splits node.splits)

lemma since_refl: "since w w = []"
  by (simp add: since_def)

lemma evolves_refl: "evolves w w"
  by (simp add: evolves_def since_def)

lemma evolves_trace: "evolves w w' \<Longrightarrow> trace w' = trace w @ since w w'"
  by (simp add: evolves_def)

lemma evolves_cwd: "evolves w w' \<Longrightarrow> cwd w' = cwd w"
  by (simp add: evolves_def)

lemma since_trans:
  assumes "evolves w w1" "evolves w1 w2"
  shows "since w w2 = since w w1 @ since w1 w2"
proof -
  have "trace w2 = trace w1 @ since w1 w2" "trace w1 = trace w @ since w w1"
    using assms by (simp_all add: evolves_trace)
  then have t: "trace w2 = trace w @ (since w w1 @ since w1 w2)" by simp
  show ?thesis by (subst since_def) (simp add: t)
qed

lemma evolves_trans:
  assumes a: "evolves w w1" and b: "evolves w1 w2"
  shows "evolves w w2"
proof -
  note s = since_trans [OF a b]
  have c1: "cwd w2 = cwd w" using a b by (simp add: evolves_def)
  have c2: "trace w2 = trace w @ since w w2"
    using evolves_trace [OF a] evolves_trace [OF b] s by simp
  have aD: "\<And>q. files w q = Some Dir \<Longrightarrow> files w1 q = Some Dir" using a by (simp add: evolves_def)
  have bD: "\<And>q. files w1 q = Some Dir \<Longrightarrow> files w2 q = Some Dir" using b by (simp add: evolves_def)
  have aF: "\<And>q d. files w q = Some (File d) \<Longrightarrow> files w1 q = Some (File d) \<or> Write q \<in> set (since w w1)"
    using a by (simp add: evolves_def)
  have bF: "\<And>q d. files w1 q = Some (File d) \<Longrightarrow> files w2 q = Some (File d) \<or> Write q \<in> set (since w1 w2)"
    using b by (simp add: evolves_def)
  have aN: "\<And>q. files w q = None \<Longrightarrow>
        files w1 q = None \<or> (files w1 q = Some Dir \<and> Mkdir q \<in> set (since w w1)) \<or> Write q \<in> set (since w w1)"
    using a by (simp add: evolves_def)
  have bN: "\<And>q. files w1 q = None \<Longrightarrow>
        files w2 q = None \<or> (files w2 q = Some Dir \<and> Mkdir q \<in> set (since w1 w2)) \<or> Write q \<in> set (since w1 w2)"
    using b by (simp add: evolves_def)
  have aM: "\<And>q. Mkdir q \<in> set (since w w1) \<Longrightarrow> files w q = None \<and> files w1 q = Some Dir"
    using a by (simp add: evolves_def)
  have bM: "\<And>q. Mkdir q \<in> set (since w1 w2) \<Longrightarrow> files w1 q = None \<and> files w2 q = Some Dir"
    using b by (simp add: evolves_def)
  have aW: "\<And>q. Write q \<in> set (since w w1) \<Longrightarrow>
        is_file (files w1 q) \<and> files w1 (butlast q) = Some Dir \<and> files w q \<noteq> Some Dir"
    using a by (simp add: evolves_def)
  have bW: "\<And>q. Write q \<in> set (since w1 w2) \<Longrightarrow>
        is_file (files w2 q) \<and> files w2 (butlast q) = Some Dir \<and> files w1 q \<noteq> Some Dir"
    using b by (simp add: evolves_def)
  have c3: "\<forall>q. files w q = Some Dir \<longrightarrow> files w2 q = Some Dir"
    using aD bD by blast
  have c4: "\<forall>q d. files w q = Some (File d) \<longrightarrow> files w2 q = Some (File d) \<or> Write q \<in> set (since w w2)"
    unfolding s using aF bF by fastforce
  have c5: "\<forall>q. files w q = None \<longrightarrow>
        files w2 q = None \<or> (files w2 q = Some Dir \<and> Mkdir q \<in> set (since w w2)) \<or> Write q \<in> set (since w w2)"
  proof (intro allI impI)
    fix q assume "files w q = None"
    from aN [OF this] show "files w2 q = None \<or> (files w2 q = Some Dir \<and> Mkdir q \<in> set (since w w2)) \<or> Write q \<in> set (since w w2)"
      unfolding s using bN [of q] bD [of q] by auto
  qed
  have c6: "\<forall>q. Mkdir q \<in> set (since w w2) \<longrightarrow> files w q = None \<and> files w2 q = Some Dir"
  proof (intro allI impI)
    fix q assume "Mkdir q \<in> set (since w w2)"
    then consider "Mkdir q \<in> set (since w w1)" | "Mkdir q \<in> set (since w1 w2)"
      unfolding s by auto
    then show "files w q = None \<and> files w2 q = Some Dir"
    proof cases
      case 1 then show ?thesis using aM bD by blast
    next
      case 2
      then have n1: "files w1 q = None" and d2: "files w2 q = Some Dir" using bM by blast+
      have "files w q = None"
      proof (cases "files w q")
        case None then show ?thesis .
      next
        case (Some n)
        then show ?thesis
        proof (cases n)
          case Dir then show ?thesis using Some aD n1 by fastforce
        next
          case (File d)
          then show ?thesis using Some aF [of q d] aW [of q] n1 by (auto simp: is_file_def)
        qed
      qed
      then show ?thesis using d2 by simp
    qed
  qed
  have c7: "\<forall>q. Write q \<in> set (since w w2) \<longrightarrow>
        is_file (files w2 q) \<and> files w2 (butlast q) = Some Dir \<and> files w q \<noteq> Some Dir"
  proof (intro allI impI)
    fix q assume "Write q \<in> set (since w w2)"
    then consider "Write q \<in> set (since w1 w2)" | "Write q \<in> set (since w w1)" "Write q \<notin> set (since w1 w2)"
      unfolding s by auto
    then show "is_file (files w2 q) \<and> files w2 (butlast q) = Some Dir \<and> files w q \<noteq> Some Dir"
    proof cases
      case 1 then show ?thesis using bW [of q] aD [of q] by auto
    next
      case 2
      from aW [OF 2(1)] obtain d where d: "files w1 q = Some (File d)"
        and p: "files w1 (butlast q) = Some Dir" and n: "files w q \<noteq> Some Dir"
        by (auto simp: is_file_def split: option.splits node.splits)
      from bF [OF d] 2(2) have "files w2 q = Some (File d)" by simp
      then show ?thesis using p n bD by (simp add: is_file_def)
    qed
  qed
  show ?thesis
    unfolding evolves_def using c1 c2 c3 c4 c5 c6 c7 by blast
qed

lemma os_mkdir_evolves: "os_mkdir p w = (r, w') \<Longrightarrow> evolves w w'"
  by (auto simp: os_mkdir_def evolves_def since_def split: sum.splits if_splits)

lemma os_mkdir_events:
  "os_mkdir p w = (r, w') \<Longrightarrow> set (since w w') \<subseteq> {Mkdir (lexical (cwd w) p)}"
  by (auto simp: os_mkdir_def since_def split: sum.splits if_splits dest: resolve_lexical)

lemma os_mkdir_stdout: "os_mkdir p w = (r, w') \<Longrightarrow> stdout w' = stdout w"
  by (auto simp: os_mkdir_def split: sum.splits if_splits)

lemma lexical_abs: "hd p = sep \<Longrightarrow> lexical wd p = lexical [] p"
  by (simp add: lexical_def)

lemma table_paths_abs:
  "\<forall>e \<in> set icon_sizes. hd (output_filename (fst e)) = sep \<and> hd (icon_dir (fst e)) = sep"
  by code_simp

lemma lexical_output_root: "\<forall>e \<in> set icon_sizes. lexical [] (output_filename (fst e)) = out_path (fst e)"
  by code_simp

lemma lexical_icon_dir_root: "\<forall>e \<in> set icon_sizes. lexical [] (icon_dir (fst e)) = out_dir (fst e)"
  by code_simp

lemma lexical_source: "lexical wd original_image_path = source_path"
proof -
  have "hd original_image_path = sep" by code_simp
  then have "lexical wd original_image_path = lexical [] original_image_path"
    by (rule lexical_abs)
  moreover have "lexical [] original_image_path = source_path" by code_simp
  ultimately show ?thesis by simp
qed

lemma lexical_output: "\<forall>e \<in> set icon_sizes. lexical wd (output_filename (fst e)) = out_path (fst e)"
proof
  fix e assume e: "e \<in> set icon_sizes"
  then have "hd (output_filename (fst e)) = sep" using table_paths_abs by blast
  then have "lexical wd (output_filename (fst e)) = lexical [] (output_filename (fst e))"
    by (rule lexical_abs)
  then show "lexical wd (output_filename (fst e)) = out_path (fst e)"
    using lexical_output_root e by simp
qed

lemma lexical_icon_dir: "\<forall>e \<in> set icon_sizes. lexical wd (icon_dir (fst e)) = out_dir (fst e)"
proof
  fix e assume e: "e \<in> set icon_sizes"
  then have "hd (icon_dir (fst e)) = sep" using table_paths_abs by blast
  then have "lexical wd (icon_dir (fst e)) = lexical [] (icon_dir (fst e))"
    by (rule lexical_abs)
  then show "lexical wd (icon_dir (fst e)) = out_dir (fst e)"
    using lexical_icon_dir_root e by simp
qed

lemma lexical_folder: "\<forall>e \<in> set icon_sizes. lexical wd (fst e) = wd @ [fst e]"
  by (simp add: icon_sizes_def sep_def lexical_def step_def)

lemma output_format:
  "\<forall>e \<in> set icon_sizes.
     registered_extension (map ascii_lower (splitext_ext (output_filename (fst e)))) = Some PNG"
  by code_simp

lemma evolves_dir: "evolves w w' \<Longrightarrow> files w q = Some Dir \<Longrightarrow> files w' q = Some Dir"
  by (simp add: evolves_def)

lemma evolves_file_kept:
  "evolves w w' \<Longrightarrow> files w q = Some (File d) \<Longrightarrow> Write q \<notin> set (since w w') \<Longrightarrow> files w' q = Some (File d)"
  unfolding evolves_def by blast

lemma evolves_write:
  "evolves w w' \<Longrightarrow> Write q \<in> set (since w w') \<Longrightarrow>
     is_file (files w' q) \<and> files w' (butlast q) = Some Dir \<and> files w q \<noteq> Some Dir"
  by (simp add: evolves_def)

lemma evolves_mkdir:
  "evolves w w' \<Longrightarrow> Mkdir q \<in> set (since w w') \<Longrightarrow> files w q = None \<and> files w' q = Some Dir"
  by (simp add: evolves_def)


lemma evolves_file: "evolves w w' \<Longrightarrow> files w q = Some (File d) \<Longrightarrow> is_file (files w' q)"
  using evolves_file_kept [of w w' q d] evolves_write [of w w' q] by (cases "Write q \<in> set (since w w')") (auto simp: is_file_def)

lemma os_makedirs_cases:
  assumes "os_makedirs name w = (r, w')"
  obtains
    (direct) "os_mkdir name w = (r, w')"
  | (nested) r1 w1 where
      "fst (makedirs_split name) \<noteq> []" "snd (makedirs_split name) \<noteq> []"
      "\<not> os_path_exists w (fst (makedirs_split name))"
      "os_makedirs (fst (makedirs_split name)) w = (r1, w1)"
      "(r1 = Some FileExistsError \<and> os_mkdir name w1 = (r, w'))
       \<or> (r1 \<noteq> None \<and> r1 \<noteq> Some FileExistsError \<and> r = r1 \<and> w' = w1)
       \<or> (r1 = None \<and> snd (makedirs_split name) = ''.'' \<and> r = None \<and> w' = w1)
       \<or> (r1 = None \<and> snd (makedirs_split name) \<noteq> ''.'' \<and> os_mkdir name w1 = (r, w'))"
proof (cases "fst (makedirs_split name) \<noteq> [] \<and> snd (makedirs_split name) \<noteq> []
         \<and> \<not> os_path_exists w (fst (makedirs_split name))")
  case False
  then have "os_makedirs name w = os_mkdir name w"
    by (subst os_makedirs.simps) auto
  then show ?thesis using assms direct by simp
next
  case True
  obtain r1 w1 where m: "os_makedirs (fst (makedirs_split name)) w = (r1, w1)"
    by (cases "os_makedirs (fst (makedirs_split name)) w") auto
  have "os_makedirs name w =
      (case (r1, w1) of
         (Some e, w') \<Rightarrow> if e = FileExistsError then os_mkdir name w' else (Some e, w')
       | (None, w') \<Rightarrow> if snd (makedirs_split name) = ''.'' then (None, w') else os_mkdir name w')"
    using True m by (subst os_makedirs.simps) simp
  then have "(r1 = Some FileExistsError \<and> os_mkdir name w1 = (r, w'))
       \<or> (r1 \<noteq> None \<and> r1 \<noteq> Some FileExistsError \<and> r = r1 \<and> w' = w1)
       \<or> (r1 = None \<and> snd (makedirs_split name) = ''.'' \<and> r = None \<and> w' = w1)
       \<or> (r1 = None \<and> snd (makedirs_split name) \<noteq> ''.'' \<and> os_mkdir name w1 = (r, w'))"
    using assms by (auto split: option.splits if_splits)
  then show ?thesis using True m nested by blast
qed

lemma os_makedirs_evolves: "os_makedirs name w = (r, w') \<Longrightarrow> evolves w w'"
proof (induction name w arbitrary: r w' rule: os_makedirs.induct)
  case (1 name w)
  from "1.prems" show ?case
  proof (cases rule: os_makedirs_cases)
    case direct
    then show ?thesis by (rule os_mkdir_evolves)
  next
    case (nested r1 w1)
    have e1: "evolves w w1"
      using "1.IH" nested(1-4) by blast
    have "evolves w w'" if "os_mkdir name w1 = (r, w')"
      using e1 os_mkdir_evolves [OF that] by (rule evolves_trans)
    with nested(5) e1 show ?thesis by blast
  qed
qed

lemma os_makedirs_events:
  "os_makedirs name w = (r, w') \<Longrightarrow>
     set (since w w') \<subseteq> Mkdir ` lexical (cwd w) ` set (makedirs_names name)"
proof (induction name w arbitrary: r w' rule: os_makedirs.induct)
  case (1 name w)
  have self: "name \<in> set (makedirs_names name)"
    by (subst makedirs_names.simps) simp
  from "1.prems" show ?case
  proof (cases rule: os_makedirs_cases)
    case direct
    then show ?thesis using os_mkdir_events [OF direct] self by auto
  next
    case (nested r1 w1)
    have e1: "evolves w w1"
      using nested(4) by (rule os_makedirs_evolves)
    have sub: "set (makedirs_names (fst (makedirs_split name))) \<subseteq> set (makedirs_names name)"
      using nested(1,2) by (subst (2) makedirs_names.simps) auto
    have s1: "set (since w w1) \<subseteq> Mkdir ` lexical (cwd w) ` set (makedirs_names name)"
      using "1.IH" [OF _ nested(4)] nested(1-3) sub by blast
    have s2: "set (since w w') \<subseteq> Mkdir ` lexical (cwd w) ` set (makedirs_names name)"
      if m: "os_mkdir name w1 = (r, w')"
    proof -
      have "since w w' = since w w1 @ since w1 w'"
        using e1 os_mkdir_evolves [OF m] by (rule since_trans)
      moreover have "set (since w1 w') \<subseteq> {Mkdir (lexical (cwd w) name)}"
        using os_mkdir_events [OF m] evolves_cwd [OF e1] by simp
      ultimately show ?thesis using s1 self by auto
    qed
    from nested(5) show ?thesis using s1 s2 by auto
  qed
qed

lemma os_makedirs_stdout: "os_makedirs name w = (r, w') \<Longrightarrow> stdout w' = stdout w"
proof (induction name w arbitrary: r w' rule: os_makedirs.induct)
  case (1 name w)
  from "1.prems" show ?case
  proof (cases rule: os_makedirs_cases)
    case direct
    then show ?thesis by (rule os_mkdir_stdout)
  next
    case (nested r1 w1)
    have "stdout w1 = stdout w" using "1.IH" nested(1-4) by blast
    with nested(5) show ?thesis by (auto dest: os_mkdir_stdout)
  qed
qed

lemma os_mkdir_made:
  "os_mkdir p w = (None, w') \<Longrightarrow> resolve w' p = Inr (lexical (cwd w) p) \<and> files w' (lexical (cwd w) p) = Some Dir"
proof -
  assume m: "os_mkdir p w = (None, w')"
  then obtain q where q: "resolve w p = Inr q" and w': "w' = w\<lparr>files := (files w)(q \<mapsto> Dir), trace := trace w @ [Mkdir q]\<rparr>"
    and n: "files w q = None"
    by (auto simp: os_mkdir_def split: sum.splits if_splits)
  have ql: "q = lexical (cwd w) p" using q by (rule resolve_lexical)
  have m: "\<And>cur cs q'. walk (files w) cur cs = Inr q' \<Longrightarrow> walk ((files w)(q \<mapsto> Dir)) cur cs = Inr q'"
    by (rule walk_mono [of "files w"]) (use n in auto)
  have "resolve w' p = Inr q"
    using q m unfolding resolve_def w' by (simp split: if_splits)
  then show ?thesis using ql w' by simp
qed

lemma os_makedirs_made:
  assumes "os_makedirs name w = (None, w')" "snd (makedirs_split name) \<noteq> ''.''"
  shows "resolve w' name = Inr (lexical (cwd w) name) \<and> files w' (lexical (cwd w) name) = Some Dir"
  using assms(1)
proof (cases rule: os_makedirs_cases)
  case direct
  then show ?thesis by (rule os_mkdir_made)
next
  case (nested r1 w1)
  then have m: "os_mkdir name w1 = (None, w')" using assms(2) by auto
  have "cwd w1 = cwd w" using os_makedirs_evolves [OF nested(4)] by (rule evolves_cwd)
  then show ?thesis using os_mkdir_made [OF m] by simp
qed

lemma resolve_evolves: "evolves w w' \<Longrightarrow> resolve w p = Inr q \<Longrightarrow> resolve w' p = Inr q"
proof -
  assume e: "evolves w w'" and r: "resolve w p = Inr q"
  have m: "\<And>cur cs q. walk (files w) cur cs = Inr q \<Longrightarrow> walk (files w') cur cs = Inr q"
    by (rule walk_mono [of "files w"]) (rule evolves_dir [OF e])
  show ?thesis
    using r m unfolding resolve_def evolves_cwd [OF e] by (simp split: if_splits)
qed

lemma exists_evolves: "evolves w w' \<Longrightarrow> os_path_exists w p \<Longrightarrow> os_path_exists w' p"
proof -
  assume e: "evolves w w'" and x: "os_path_exists w p"
  then obtain q where q: "resolve w p = Inr q" and n: "files w q \<noteq> None"
    by (auto simp: os_path_exists_def split: sum.splits)
  have "files w' q \<noteq> None"
  proof (cases "files w q")
    case None then show ?thesis using n by simp
  next
    case (Some nd)
    then show ?thesis
      using evolves_dir [OF e, of q] evolves_file [OF e, of q]
      by (cases nd) (auto simp: is_file_def split: option.splits)
  qed
  then show ?thesis using resolve_evolves [OF e q] by (simp add: os_path_exists_def)
qed

lemma ensure_dir_evolves: "ensure_dir p w = (r, w') \<Longrightarrow> evolves w w'"
  by (auto simp: ensure_dir_def evolves_refl split: if_splits dest: os_makedirs_evolves)

lemma ensure_dir_stdout: "ensure_dir p w = (r, w') \<Longrightarrow> stdout w' = stdout w"
  by (auto simp: ensure_dir_def split: if_splits dest: os_makedirs_stdout)

lemma ensure_dir_events:
  "ensure_dir p w = (r, w') \<Longrightarrow> set (since w w') \<subseteq> Mkdir ` lexical (cwd w) ` set (makedirs_names p)"
  by (auto simp: ensure_dir_def since_refl split: if_splits dest: os_makedirs_events)

lemma ensure_dir_exists:
  "ensure_dir p w = (None, w') \<Longrightarrow> snd (makedirs_split p) \<noteq> ''.'' \<Longrightarrow> os_path_exists w' p"
  by (auto simp: ensure_dir_def os_path_exists_def split: if_splits sum.splits dest: os_makedirs_made)

lemma evolves_print: "evolves w w' \<Longrightarrow> evolves w (print m w')"
  by (simp add: evolves_def print_def since_def)

lemma since_print: "since w (print m w') = since w w'"
  by (simp add: print_def since_def)

lemma resolve_print: "resolve (print m w) p = resolve w p"
  by (simp add: resolve_def print_def)

lemma files_print: "files (print m w) = files w"
  by (simp add: print_def)

lemma exists_print: "os_path_exists (print m w) p = os_path_exists w p"
  by (simp add: os_path_exists_def resolve_print files_print split: sum.splits)

lemma save_evolves: "save img p w = (r, w') \<Longrightarrow> evolves w w'"
  by (auto simp: save_def evolves_def since_def is_file_def split: option.splits sum.splits if_splits)

lemma save_raised: "save img p w = (Some e, w') \<Longrightarrow> w' = w"
  by (auto simp: save_def split: option.splits sum.splits if_splits)

lemma save_stdout: "save img p w = (r, w') \<Longrightarrow> stdout w' = stdout w"
  by (auto simp: save_def split: option.splits sum.splits if_splits)

lemma save_done:
  assumes "save img p w = (None, w')"
  shows "since w w' = [Write (lexical (cwd w) p)]"
    and "resolve w' p = Inr (lexical (cwd w) p)"
    and "\<exists>f. registered_extension (map ascii_lower (splitext_ext p)) = Some f
           \<and> files w' (lexical (cwd w) p) = Some (File (Encoded f (im_size img) (im_data img)))"
proof -
  from assms obtain f q where f: "registered_extension (map ascii_lower (splitext_ext p)) = Some f"
    and q: "resolve w p = Inr q" and nd: "files w q \<noteq> Some Dir"
    and w': "w' = w\<lparr>files := (files w)(q \<mapsto> File (Encoded f (im_size img) (im_data img))),
                     trace := trace w @ [Write q]\<rparr>"
    by (auto simp: save_def split: option.splits sum.splits if_splits)
  have ql: "q = lexical (cwd w) p" using q by (rule resolve_lexical)
  show "since w w' = [Write (lexical (cwd w) p)]"
    using w' ql by (simp add: since_def)
  show "resolve w' p = Inr (lexical (cwd w) p)"
    using resolve_evolves [OF save_evolves [OF assms] q] ql by simp
  show "\<exists>f. registered_extension (map ascii_lower (splitext_ext p)) = Some f
           \<and> files w' (lexical (cwd w) p) = Some (File (Encoded f (im_size img) (im_data img)))"
    using f w' ql by simp
qed

lemma mkdir_before_write_append:
  "mkdir_before_write (a @ b) \<longleftrightarrow>
     mkdir_before_write a \<and> mkdir_before_write b \<and> (\<forall>q. Write q \<in> set a \<longrightarrow> Mkdir (butlast q) \<notin> set b)"
  by (induction a) (auto split: event.splits)

lemma mkdir_before_write_mkdirs: "\<forall>e \<in> set a. is_mkdir e \<Longrightarrow> mkdir_before_write a"
  by (induction a) (auto simp: is_mkdir_def split: event.splits)

lemma resize_table:
  "entry \<in> set icon_sizes \<Longrightarrow>
     resize img (snd entry) LANCZOS =
       Inr \<lparr>im_size = snd entry, im_format = None,
            im_data = Resampled LANCZOS (0, 0, fst (im_size img), snd (im_size img)) (snd entry) (im_data img)\<rparr>"
  by (auto simp: icon_sizes_def resize_def)

lemma tails_not_curdir:
  "\<forall>e \<in> set icon_sizes.
     snd (makedirs_split (fst e)) \<noteq> ''.'' \<and> snd (makedirs_split (icon_dir (fst e))) \<noteq> ''.''"
  by code_simp

lemma folder_names: "\<forall>e \<in> set icon_sizes. makedirs_names (fst e) = [fst e]"
  by code_simp

lemma process_icon_cases:
  assumes "process_icon img entry w = (r, w')" "entry \<in> set icon_sizes"
  obtains
    (folder_failed) e where
      "ensure_dir (fst entry) w = (Some e, w')" "r = Some e"
  | (icon_dir_failed) e w1 where
      "ensure_dir (fst entry) w = (None, w1)"
      "ensure_dir (icon_dir (fst entry)) w1 = (Some e, w')" "r = Some e"
  | (save_failed) e w1 w2 where
      "ensure_dir (fst entry) w = (None, w1)"
      "ensure_dir (icon_dir (fst entry)) w1 = (None, w2)"
      "save (resized_img img (snd entry)) (output_filename (fst entry)) w2 = (Some e, w')" "r = Some e"
  | (saved) w1 w2 w3 where
      "ensure_dir (fst entry) w = (None, w1)"
      "ensure_dir (icon_dir (fst entry)) w1 = (None, w2)"
      "save (resized_img img (snd entry)) (output_filename (fst entry)) w2 = (None, w3)"
      "r = None"
      "w' = print (MsgCreated (output_filename (fst entry)) (fst (snd entry)) (snd (snd entry))) w3"
proof -
  have rs: "resize img (snd entry) LANCZOS = Inr (resized_img img (snd entry))"
    using resize_table [OF assms(2)] by (simp add: resized_img_def)
  obtain r1 w1 where a: "ensure_dir (fst entry) w = (r1, w1)"
    by (cases "ensure_dir (fst entry) w") auto
  obtain r2 w2 where b: "ensure_dir (icon_dir (fst entry)) w1 = (r2, w2)"
    by (cases "ensure_dir (icon_dir (fst entry)) w1") auto
  obtain r3 w3 where c: "save (resized_img img (snd entry)) (output_filename (fst entry)) w2 = (r3, w3)"
    by (cases "save (resized_img img (snd entry)) (output_filename (fst entry)) w2") auto
  show ?thesis
  proof (cases r1)
    case (Some e)
    then show ?thesis
      using assms(1) a folder_failed by (auto simp: process_icon_def and_then_def Let_def)
  next
    case n1: None
    show ?thesis
    proof (cases r2)
      case (Some e)
      then show ?thesis
        using assms(1) a b n1 rs icon_dir_failed by (auto simp: process_icon_def and_then_def Let_def)
    next
      case n2: None
      show ?thesis
      proof (cases r3)
        case (Some e)
        then show ?thesis
          using assms(1) a b c n1 n2 rs save_failed by (auto simp: process_icon_def and_then_def Let_def)
      next
        case None
        then show ?thesis
          using assms(1) a b c n1 n2 rs saved by (auto simp: process_icon_def and_then_def Let_def)
      qed
    qed
  qed
qed

lemma process_icon_evolves:
  assumes "process_icon img entry w = (r, w')" "entry \<in> set icon_sizes"
  shows "evolves w w'"
  using assms
proof (cases rule: process_icon_cases)
  case (folder_failed e)
  then show ?thesis by (simp add: ensure_dir_evolves)
next
  case (icon_dir_failed e w1)
  then show ?thesis by (meson ensure_dir_evolves evolves_trans)
next
  case (save_failed e w1 w2)
  then show ?thesis by (meson ensure_dir_evolves save_evolves evolves_trans)
next
  case (saved w1 w2 w3)
  then have "evolves w w3" by (meson ensure_dir_evolves save_evolves evolves_trans)
  then show ?thesis using saved(5) by (simp add: evolves_print)
qed

lemma ensure_folder_events:
  assumes "ensure_dir (fst entry) w = (r, w')" "entry \<in> set icon_sizes"
  shows "set (since w w') \<subseteq> Mkdir ` made_for (cwd w) (fst entry)"
proof -
  have "makedirs_names (fst entry) = [fst entry]" "lexical (cwd w) (fst entry) = cwd w @ [fst entry]"
    using assms(2) folder_names lexical_folder by blast+
  then show ?thesis
    using ensure_dir_events [OF assms(1)] by (auto simp: made_for_def)
qed

lemma ensure_icon_dir_events:
  assumes "ensure_dir (icon_dir l) w = (r, w')"
  shows "set (since w w') \<subseteq> Mkdir ` made_for (cwd w) l"
  using ensure_dir_events [OF assms] by (auto simp: made_for_def)

lemma process_icon_events:
  assumes "process_icon img entry w = (r, w')" "entry \<in> set icon_sizes"
  shows "\<exists>mk. set mk \<subseteq> Mkdir ` made_for (cwd w) (fst entry)
           \<and> since w w' = mk @ (if r = None then [Write (out_path (fst entry))] else [])"
  using assms
proof (cases rule: process_icon_cases)
  case (folder_failed e)
  have "set (since w w') \<subseteq> Mkdir ` made_for (cwd w) (fst entry)"
    using ensure_folder_events [OF folder_failed(1) assms(2)] .
  then show ?thesis
    using folder_failed(2) by (intro exI [of _ "since w w'"]) simp
next
  case (icon_dir_failed e w1)
  have e1: "evolves w w1" and e2: "evolves w1 w'"
    using icon_dir_failed by (simp_all add: ensure_dir_evolves)
  have s: "since w w' = since w w1 @ since w1 w'" using e1 e2 by (rule since_trans)
  have m1: "set (since w w1) \<subseteq> Mkdir ` made_for (cwd w) (fst entry)"
    using ensure_folder_events [OF icon_dir_failed(1) assms(2)] .
  have m2: "set (since w1 w') \<subseteq> Mkdir ` made_for (cwd w) (fst entry)"
    using ensure_icon_dir_events [OF icon_dir_failed(2)] evolves_cwd [OF e1] by simp
  show ?thesis
    using icon_dir_failed(3) m1 m2 s by (intro exI [of _ "since w w'"]) simp
next
  case (save_failed e w1 w2)
  have e1: "evolves w w1" and e2: "evolves w1 w2"
    using save_failed by (simp_all add: ensure_dir_evolves)
  have "w' = w2" using save_failed(3) by (rule save_raised)
  then have s: "since w w' = since w w1 @ since w1 w2" using e1 e2 by (simp add: since_trans)
  have m1: "set (since w w1) \<subseteq> Mkdir ` made_for (cwd w) (fst entry)"
    using ensure_folder_events [OF save_failed(1) assms(2)] .
  have m2: "set (since w1 w2) \<subseteq> Mkdir ` made_for (cwd w) (fst entry)"
    using ensure_icon_dir_events [OF save_failed(2)] evolves_cwd [OF e1] by simp
  show ?thesis
    using save_failed(4) m1 m2 s by (intro exI [of _ "since w w'"]) simp
next
  case (saved w1 w2 w3)
  have e1: "evolves w w1" and e2: "evolves w1 w2" and e3: "evolves w2 w3"
    using saved by (simp_all add: ensure_dir_evolves save_evolves)
  have e12: "evolves w w2" using e1 e2 by (rule evolves_trans)
  have s12: "since w w2 = since w w1 @ since w1 w2" using e1 e2 by (rule since_trans)
  have lo: "lexical (cwd w2) (output_filename (fst entry)) = out_path (fst entry)"
    using lexical_output assms(2) by blast
  have s3: "since w2 w3 = [Write (out_path (fst entry))]"
    using save_done(1) [OF saved(3)] lo by simp
  have s: "since w w' = since w w2 @ [Write (out_path (fst entry))]"
    using since_trans [OF e12 e3] s3 saved(5) by (simp add: since_print)
  have m1: "set (since w w1) \<subseteq> Mkdir ` made_for (cwd w) (fst entry)"
    using ensure_folder_events [OF saved(1) assms(2)] .
  have m2: "set (since w1 w2) \<subseteq> Mkdir ` made_for (cwd w) (fst entry)"
    using ensure_icon_dir_events [OF saved(2)] evolves_cwd [OF e1] by simp
  show ?thesis
    using saved(4) m1 m2 s s12 by (intro exI [of _ "since w w2"]) simp
qed

lemma process_icon_done:
  assumes "process_icon img entry w = (None, w')" "entry \<in> set icon_sizes"
  shows "os_path_exists w' (fst entry) \<and>
    os_path_exists w' (icon_dir (fst entry)) \<and>
    resolve w' (output_filename (fst entry)) = Inr (out_path (fst entry)) \<and>
    files w' (out_path (fst entry)) = Some (File (resampled img (snd entry))) \<and>
    stdout w' = stdout w @ [MsgCreated (output_filename (fst entry)) (fst (snd entry)) (snd (snd entry))]"
  using assms
proof (cases rule: process_icon_cases)
  case (saved w1 w2 w3)
  have e2: "evolves w1 w2" and e3: "evolves w2 w3"
    using saved by (simp_all add: ensure_dir_evolves save_evolves)
  have t: "snd (makedirs_split (fst entry)) \<noteq> ''.''" "snd (makedirs_split (icon_dir (fst entry))) \<noteq> ''.''"
    using tails_not_curdir assms(2) by blast+
  have x1: "os_path_exists w3 (fst entry)"
    using ensure_dir_exists [OF saved(1) t(1)] e2 e3 by (meson exists_evolves)
  have x2: "os_path_exists w3 (icon_dir (fst entry))"
    using ensure_dir_exists [OF saved(2) t(2)] e3 by (meson exists_evolves)
  have lo: "lexical (cwd w2) (output_filename (fst entry)) = out_path (fst entry)"
    using lexical_output assms(2) by blast
  have fm: "registered_extension (map ascii_lower (splitext_ext (output_filename (fst entry)))) = Some PNG"
    using output_format assms(2) by blast
  have x3: "resolve w3 (output_filename (fst entry)) = Inr (out_path (fst entry))"
    using save_done(2) [OF saved(3)] lo by simp
  have x4: "files w3 (out_path (fst entry)) = Some (File (resampled img (snd entry)))"
    using save_done(3) [OF saved(3)] lo fm by (simp add: resampled_def resized_img_def)
  have x5: "stdout w3 = stdout w"
    using saved(1-3) by (metis ensure_dir_stdout save_stdout)
  show ?thesis
    using x1 x2 x3 x4 x5 saved(5) by (simp add: exists_print resolve_print files_print) (simp add: print_def)
qed simp_all

lemma for_icons_Cons_cases:
  assumes "for_icons img (e # es) w = (r, w')"
  obtains
    (stopped) x where "process_icon img e w = (Some x, w')" "r = Some x"
  | (continued) w1 where "process_icon img e w = (None, w1)" "for_icons img es w1 = (r, w')"
proof -
  obtain r1 w1 where p: "process_icon img e w = (r1, w1)"
    by (cases "process_icon img e w") auto
  show ?thesis
  proof (cases r1)
    case None
    then show ?thesis using assms p continued by (simp add: and_then_def)
  next
    case (Some x)
    then show ?thesis using assms p stopped by (auto simp: and_then_def)
  qed
qed

lemma for_icons_evolves:
  "for_icons img es w = (r, w') \<Longrightarrow> set es \<subseteq> set icon_sizes \<Longrightarrow> evolves w w'"
proof (induction es arbitrary: w)
  case Nil
  then show ?case by (simp add: evolves_refl)
next
  case (Cons e es)
  from Cons.prems(1) show ?case
  proof (cases rule: for_icons_Cons_cases)
    case (stopped x)
    then show ?thesis using Cons.prems(2) process_icon_evolves by simp
  next
    case (continued w1)
    have "evolves w w1" using continued(1) Cons.prems(2) process_icon_evolves by simp
    moreover have "evolves w1 w'" using Cons.IH [OF continued(2)] Cons.prems(2) by simp
    ultimately show ?thesis by (rule evolves_trans)
  qed
qed

lemma out_path_inj: "out_path a = out_path b \<Longrightarrow> a = b"
  by (simp add: out_path_def)

lemma io_events_append: "io_events (a @ b) = io_events a @ io_events b"
  by (simp add: io_events_def)

lemma io_events_mkdirs: "set mk \<subseteq> Mkdir ` X \<Longrightarrow> io_events mk = []"
  by (induction mk) (auto simp: io_events_def is_mkdir_def)

lemma mkdirs_only: "set mk \<subseteq> Mkdir ` X \<Longrightarrow> \<forall>e \<in> set mk. is_mkdir e"
  by (auto simp: is_mkdir_def)

lemma process_icon_order:
  assumes "process_icon img entry w = (r, w')" "entry \<in> set icon_sizes"
  shows "mkdir_before_write (since w w')"
proof -
  obtain mk where mk: "set mk \<subseteq> Mkdir ` made_for (cwd w) (fst entry)"
    and s: "since w w' = mk @ (if r = None then [Write (out_path (fst entry))] else [])"
    using process_icon_events [OF assms] by blast
  have "mkdir_before_write mk"
    using mkdirs_only [OF mk] by (rule mkdir_before_write_mkdirs)
  moreover have "\<forall>q. Write q \<notin> set mk" using mk by auto
  ultimately show ?thesis unfolding s by (simp add: mkdir_before_write_append)
qed

lemma process_icon_io:
  assumes "process_icon img entry w = (r, w')" "entry \<in> set icon_sizes"
  shows "io_events (since w w') = (if r = None then [Write (out_path (fst entry))] else [])"
proof -
  obtain mk where mk: "set mk \<subseteq> Mkdir ` made_for (cwd w) (fst entry)"
    and s: "since w w' = mk @ (if r = None then [Write (out_path (fst entry))] else [])"
    using process_icon_events [OF assms] by blast
  show ?thesis unfolding s using io_events_mkdirs [OF mk]
    by (simp add: io_events_append) (simp add: io_events_def is_mkdir_def)
qed



lemma for_icons_io:
  "for_icons img es w = (r, w') \<Longrightarrow> set es \<subseteq> set icon_sizes \<Longrightarrow>
     \<exists>k \<le> length es. (r = None \<longrightarrow> k = length es)
        \<and> io_events (since w w') = map (\<lambda>e. Write (out_path (fst e))) (take k es)"
proof (induction es arbitrary: w)
  case Nil
  then show ?case by (simp add: since_refl io_events_def)
next
  case (Cons e es)
  from Cons.prems(1) show ?case
  proof (cases rule: for_icons_Cons_cases)
    case (stopped x)
    then have "io_events (since w w') = []"
      using process_icon_io [of img e w r w'] Cons.prems(2) by simp
    then show ?thesis using stopped(2) by (intro exI [of _ 0]) simp
  next
    case (continued w1)
    have e1: "evolves w w1" using continued(1) Cons.prems(2) process_icon_evolves by simp
    have e2: "evolves w1 w'" using for_icons_evolves [OF continued(2)] Cons.prems(2) by simp
    have s: "since w w' = since w w1 @ since w1 w'" using e1 e2 by (rule since_trans)
    have h: "io_events (since w w1) = [Write (out_path (fst e))]"
      using process_icon_io [OF continued(1)] Cons.prems(2) by simp
    obtain k where k: "k \<le> length es" "r = None \<longrightarrow> k = length es"
      "io_events (since w1 w') = map (\<lambda>e. Write (out_path (fst e))) (take k es)"
      using Cons.IH [OF continued(2)] Cons.prems(2) by auto
    show ?thesis
      using k h s by (intro exI [of _ "Suc k"]) (simp add: io_events_append)
  qed
qed

lemma io_events_mem: "Write q \<in> set evs \<Longrightarrow> Write q \<in> set (io_events evs)"
  by (simp add: io_events_def is_mkdir_def)

lemma for_icons_writes:
  assumes "for_icons img es w = (r, w')" "set es \<subseteq> set icon_sizes" "Write q \<in> set (since w w')"
  shows "q \<in> out_path ` fst ` set es"
proof -
  obtain k where "io_events (since w w') = map (\<lambda>e. Write (out_path (fst e))) (take k es)"
    using for_icons_io [OF assms(1,2)] by blast
  then have "Write q \<in> set (map (\<lambda>e. Write (out_path (fst e))) (take k es))"
    using io_events_mem [OF assms(3)] by simp
  then obtain e where "e \<in> set (take k es)" "q = out_path (fst e)" by auto
  then show ?thesis using set_take_subset [of k es] by auto
qed

lemma for_icons_order:
  "for_icons img es w = (r, w') \<Longrightarrow> set es \<subseteq> set icon_sizes \<Longrightarrow> mkdir_before_write (since w w')"
proof (induction es arbitrary: w)
  case Nil
  then show ?case by (simp add: since_refl)
next
  case (Cons e es)
  from Cons.prems(1) show ?case
  proof (cases rule: for_icons_Cons_cases)
    case (stopped x)
    then show ?thesis using process_icon_order [of img e w r w'] Cons.prems(2) by simp
  next
    case (continued w1)
    have e1: "evolves w w1" using continued(1) Cons.prems(2) process_icon_evolves by simp
    have e2: "evolves w1 w'" using for_icons_evolves [OF continued(2)] Cons.prems(2) by simp
    have s: "since w w' = since w w1 @ since w1 w'" using e1 e2 by (rule since_trans)
    have o1: "mkdir_before_write (since w w1)"
      using process_icon_order [OF continued(1)] Cons.prems(2) by simp
    have o2: "mkdir_before_write (since w1 w')"
      using Cons.IH [OF continued(2)] Cons.prems(2) by simp
    have x: "Mkdir (butlast q) \<notin> set (since w1 w')" if "Write q \<in> set (since w w1)" for q
      using evolves_write [OF e1 that] evolves_mkdir [OF e2, of "butlast q"] by auto
    show ?thesis unfolding s using o1 o2 x by (simp add: mkdir_before_write_append)
  qed
qed

lemma for_icons_done:
  "for_icons img es w = (None, w') \<Longrightarrow> set es \<subseteq> set icon_sizes \<Longrightarrow> distinct (map fst es) \<Longrightarrow>
     \<forall>e \<in> set es. os_path_exists w' (fst e) \<and> os_path_exists w' (icon_dir (fst e))
        \<and> resolve w' (output_filename (fst e)) = Inr (out_path (fst e))
        \<and> files w' (out_path (fst e)) = Some (File (resampled img (snd e)))"
proof (induction es arbitrary: w)
  case Nil
  then show ?case by simp
next
  case (Cons e es)
  from Cons.prems(1) show ?case
  proof (cases rule: for_icons_Cons_cases)
    case (stopped x)
    then show ?thesis by simp
  next
    case (continued w1)
    have mem: "e \<in> set icon_sizes" using Cons.prems(2) by simp
    have e2: "evolves w1 w'" using for_icons_evolves [OF continued(2)] Cons.prems(2) by simp
    note d = process_icon_done [OF continued(1) mem]
    have "Write (out_path (fst e)) \<notin> set (since w1 w')"
    proof
      assume "Write (out_path (fst e)) \<in> set (since w1 w')"
      then have "out_path (fst e) \<in> out_path ` fst ` set es"
        using for_icons_writes [OF continued(2)] Cons.prems(2) by simp
      then have "fst e \<in> fst ` set es" using out_path_inj by auto
      then show False using Cons.prems(3) by simp
    qed
    then have f: "files w' (out_path (fst e)) = Some (File (resampled img (snd e)))"
      using evolves_file_kept [OF e2] d by blast
    have hd: "os_path_exists w' (fst e) \<and> os_path_exists w' (icon_dir (fst e))
        \<and> resolve w' (output_filename (fst e)) = Inr (out_path (fst e))"
      using d exists_evolves [OF e2] resolve_evolves [OF e2] by blast
    have tl: "\<forall>e \<in> set es. os_path_exists w' (fst e) \<and> os_path_exists w' (icon_dir (fst e))
        \<and> resolve w' (output_filename (fst e)) = Inr (out_path (fst e))
        \<and> files w' (out_path (fst e)) = Some (File (resampled img (snd e)))"
      using Cons.IH [OF continued(2)] Cons.prems(2,3) by simp
    show ?thesis using hd f tl by simp
  qed
qed

lemma for_icons_stdout:
  "for_icons img es w = (None, w') \<Longrightarrow> set es \<subseteq> set icon_sizes \<Longrightarrow>
     stdout w' = stdout w @ map (\<lambda>e. MsgCreated (output_filename (fst e)) (fst (snd e)) (snd (snd e))) es"
proof (induction es arbitrary: w)
  case Nil
  then show ?case by simp
next
  case (Cons e es)
  from Cons.prems(1) show ?case
  proof (cases rule: for_icons_Cons_cases)
    case (stopped x)
    then show ?thesis by simp
  next
    case (continued w1)
    have "stdout w1 = stdout w @ [MsgCreated (output_filename (fst e)) (fst (snd e)) (snd (snd e))]"
      using process_icon_done [OF continued(1)] Cons.prems(2) by simp
    then show ?thesis using Cons.IH [OF continued(2)] Cons.prems(2) by simp
  qed
qed

lemma Image_open_raised: "Image_open p w = (Inl e, w') \<Longrightarrow> w' = w"
  by (auto simp: Image_open_def split: sum.splits option.splits node.splits filedata.splits)

lemma Image_open_ok:
  "Image_open p w = (Inr img, w') \<Longrightarrow>
     (\<exists>f. files w (lexical (cwd w) p) = Some (File (Encoded f (im_size img) (im_data img))))
     \<and> w' = w\<lparr>trace := trace w @ [Open (lexical (cwd w) p)]\<rparr>"
  by (auto simp: Image_open_def split: sum.splits option.splits node.splits filedata.splits
      dest: resolve_lexical)

lemma run_cases:
  assumes "run w = (r, w')"
  obtains
    (missing) "\<not> os_path_exists w original_image_path" "r = None"
      "w' = print MsgSaveHint (print (MsgNotFound original_image_path) w)"
  | (unreadable) e where "os_path_exists w original_image_path"
      "Image_open original_image_path w = (Inl e, w')" "r = Some e"
  | (ran) img w1 w2 where "os_path_exists w original_image_path"
      "Image_open original_image_path w = (Inr img, w1)"
      "for_icons img icon_sizes (print (MsgProcessing original_image_path) w1) = (r, w2)"
      "w' = (if r = None then print MsgDone (Image_close w2) else Image_close w2)"
proof (cases "os_path_exists w original_image_path")
  case False
  then show ?thesis using assms missing by (simp add: run_def)
next
  case True
  obtain o1 w1 where a: "Image_open original_image_path w = (o1, w1)"
    by (cases "Image_open original_image_path w") auto
  show ?thesis
  proof (cases o1)
    case (Inl e)
    then show ?thesis using assms True a unreadable by (simp add: run_def)
  next
    case (Inr img)
    obtain r2 w2 where b: "for_icons img icon_sizes (print (MsgProcessing original_image_path) w1) = (r2, w2)"
      by (cases "for_icons img icon_sizes (print (MsgProcessing original_image_path) w1)") auto
    show ?thesis
      using assms True a b Inr ran [of img w1 w2] by (cases r2) (auto simp: run_def)
  qed
qed

lemma evolves_logged:
  "\<not> is_mkdir ev \<Longrightarrow> (\<forall>q. ev \<noteq> Write q) \<Longrightarrow> evolves w (w\<lparr>trace := trace w @ [ev]\<rparr>)"
  by (auto simp: evolves_def since_def is_mkdir_def)

lemma since_logged: "since w (w\<lparr>trace := trace w @ [ev]\<rparr>) = [ev]"
  by (simp add: since_def)

lemma evolves_print_self: "evolves w (print m w)"
  by (rule evolves_print) (rule evolves_refl)

lemma run_evolves:
  assumes "run w = (r, w')"
  shows "evolves w w'"
  using assms
proof (cases rule: run_cases)
  case missing
  show ?thesis unfolding missing(3) by (intro evolves_print evolves_refl)
next
  case (unreadable e)
  have "w' = w" using unreadable(2) by (rule Image_open_raised)
  then show ?thesis by (simp add: evolves_refl)
next
  case (ran img w1 w2)
  let ?w1' = "print (MsgProcessing original_image_path) w1"
  have w1: "w1 = w\<lparr>trace := trace w @ [Open (lexical (cwd w) original_image_path)]\<rparr>"
    using Image_open_ok [OF ran(2)] by simp
  have a: "evolves w ?w1'"
    unfolding w1 by (rule evolves_print) (simp add: evolves_logged is_mkdir_def)
  have b: "evolves ?w1' w2" using for_icons_evolves [OF ran(3)] by simp
  have c: "evolves w2 (Image_close w2)"
    unfolding Image_close_def by (simp add: evolves_logged is_mkdir_def)
  have "evolves w (Image_close w2)" using a b c by (meson evolves_trans)
  then show ?thesis using ran(4) by (simp add: evolves_print)
qed

lemma run_since:
  assumes "Image_open original_image_path w = (Inr img, w1)"
    "for_icons img icon_sizes (print (MsgProcessing original_image_path) w1) = (r, w2)"
    "w' = (if r = None then print MsgDone (Image_close w2) else Image_close w2)"
  shows "since w w' = Open source_path # since (print (MsgProcessing original_image_path) w1) w2 @ [Close]"
proof -
  let ?w1' = "print (MsgProcessing original_image_path) w1"
  have w1: "w1 = w\<lparr>trace := trace w @ [Open source_path]\<rparr>"
    using Image_open_ok [OF assms(1)] by (simp add: lexical_source)
  have a: "evolves w ?w1'"
    unfolding w1 by (rule evolves_print) (simp add: evolves_logged is_mkdir_def)
  have sa: "since w ?w1' = [Open source_path]"
    unfolding w1 by (simp add: since_print since_logged)
  have b: "evolves ?w1' w2" using for_icons_evolves [OF assms(2)] by simp
  have c: "evolves w2 (Image_close w2)"
    unfolding Image_close_def by (simp add: evolves_logged is_mkdir_def)
  have sc: "since w2 (Image_close w2) = [Close]"
    unfolding Image_close_def by (rule since_logged)
  have ab: "evolves w w2" using a b by (rule evolves_trans)
  have "since w (Image_close w2) = (since w ?w1' @ since ?w1' w2) @ since w2 (Image_close w2)"
    using since_trans [OF ab c] since_trans [OF a b] by simp
  then have "since w (Image_close w2) = Open source_path # since ?w1' w2 @ [Close]"
    using sa sc by simp
  then show ?thesis using assms(3) by (simp add: since_print)
qed

lemma photo_run_ok: "os_path_exists photo_world original_image_path \<and> fst (run photo_world) = None"
  by code_simp

lemma bare_run: "\<not> os_path_exists bare_world original_image_path"
  by code_simp

lemma written_append: "written (a @ b) = written a @ written b"
  by (induction a) (auto split: event.splits)

lemma written_io_events: "written (io_events evs) = written evs"
  by (induction evs) (auto simp: io_events_def is_mkdir_def split: event.splits)

lemma written_map_Write: "written (map (\<lambda>e. Write (f e)) es) = map f es"
  by (induction es) auto

lemma run_io:
  assumes "run w = (r, w')"
  obtains
    (silent) "io_events (since w w') = []" "r = None \<longrightarrow> \<not> os_path_exists w original_image_path"
  | (looped) k where "k \<le> length icon_sizes" "r = None \<longrightarrow> k = length icon_sizes"
      "os_path_exists w original_image_path"
      "io_events (since w w') =
         Open source_path # map (\<lambda>e. Write (out_path (fst e))) (take k icon_sizes) @ [Close]"
  using assms
proof (cases rule: run_cases)
  case missing
  have "since w w' = []" unfolding missing(3) by (simp add: since_print since_refl)
  then have "io_events (since w w') = []" by (simp add: io_events_def)
  then show ?thesis using silent missing(1) by blast
next
  case (unreadable e)
  have "w' = w" using unreadable(2) by (rule Image_open_raised)
  then have "io_events (since w w') = []" by (simp add: since_refl io_events_def)
  then show ?thesis using silent unreadable(3) by blast
next
  case (ran img w1 w2)
  let ?w1' = "print (MsgProcessing original_image_path) w1"
  obtain k where k: "k \<le> length icon_sizes" "r = None \<longrightarrow> k = length icon_sizes"
      "io_events (since ?w1' w2) = map (\<lambda>e. Write (out_path (fst e))) (take k icon_sizes)"
    using for_icons_io [OF ran(3)] by auto
  have "since w w' = Open source_path # since ?w1' w2 @ [Close]"
    using ran(2-4) by (rule run_since)
  then have "io_events (since w w') =
      Open source_path # map (\<lambda>e. Write (out_path (fst e))) (take k icon_sizes) @ [Close]"
    using k(3) by (simp add: io_events_append) (simp add: io_events_def is_mkdir_def)
  then show ?thesis using looped k(1,2) ran(1) by blast
qed

lemma run_stdout_done:
  assumes "run w = (None, w')" "os_path_exists w original_image_path"
  shows "last (stdout w') = MsgDone"
  using assms(1)
proof (cases rule: run_cases)
  case missing
  then show ?thesis using assms(2) by simp
next
  case (ran img w1 w2)
  then show ?thesis by (simp add: print_def)
qed simp

lemma run_writes:
  assumes "run w = (r, w')" "Write q \<in> set (since w w')"
  shows "q \<in> set output_paths"
  using assms(1)
proof (cases rule: run_io)
  case silent
  then show ?thesis using io_events_mem [OF assms(2)] by simp
next
  case (looped k)
  then have "Write q \<in> set (map (\<lambda>e. Write (out_path (fst e))) (take k icon_sizes))"
    using io_events_mem [OF assms(2)] by auto
  then obtain e where "e \<in> set (take k icon_sizes)" "q = out_path (fst e)" by auto
  then show ?thesis using set_take_subset [of k icon_sizes] by (auto simp: output_paths_def)
qed

lemma source_not_output: "source_path \<notin> set output_paths"
  by code_simp

text \<open>
  C1. When the configured source path does not exist the script prints its two diagnostic
  lines and ends without an exception, and the world is otherwise unchanged: no file is
  written, no directory made, nothing logged. No other failure is handled: whenever the
  source exists and the run ends without an exception, all five files were written and
  the closing line was printed.
\<close>

theorem missing_source_is_the_handled_error:
  "(\<not> os_path_exists w original_image_path \<longrightarrow>
      run w = (None, w\<lparr>stdout := stdout w @ [MsgNotFound original_image_path, MsgSaveHint]\<rparr>))
   \<and> (os_path_exists w original_image_path \<and> fst (run w) = None \<longrightarrow>
        written (since w (snd (run w))) = output_paths
        \<and> last (stdout (snd (run w))) = MsgDone)"
proof (intro conjI impI)
  assume "\<not> os_path_exists w original_image_path"
  then show "run w = (None, w\<lparr>stdout := stdout w @ [MsgNotFound original_image_path, MsgSaveHint]\<rparr>)"
    by (simp add: run_def print_def)
next
  assume a: "os_path_exists w original_image_path \<and> fst (run w) = None"
  then have r: "run w = (None, snd (run w))" by (metis prod.collapse)
  from r have "io_events (since w (snd (run w))) =
      Open source_path # map (\<lambda>e. Write (out_path (fst e))) icon_sizes @ [Close]"
    using a by (cases rule: run_io) auto
  then have "written (io_events (since w (snd (run w)))) = output_paths"
    by (simp add: written_append written_map_Write output_paths_def)
  then show "written (since w (snd (run w))) = output_paths"
    by (simp add: written_io_events)
  show "last (stdout (snd (run w))) = MsgDone"
    using run_stdout_done [OF r] a by simp
qed

theorem missing_source_is_the_handled_error_witness:
  "\<not> os_path_exists bare_world original_image_path
   \<and> run bare_world =
       (None, bare_world\<lparr>stdout := stdout bare_world @ [MsgNotFound original_image_path, MsgSaveHint]\<rparr>)
   \<and> os_path_exists photo_world original_image_path \<and> fst (run photo_world) = None
   \<and> written (since photo_world (snd (run photo_world))) = output_paths
   \<and> last (stdout (snd (run photo_world))) = MsgDone"
  using missing_source_is_the_handled_error [of bare_world]
    missing_source_is_the_handled_error [of photo_world] bare_run photo_run_ok
  by simp



text \<open>
  C10. Whatever the outcome of a run, every regular file that existed before it and is
  not at one of the five output paths is still there with the same content afterwards;
  the source image is one of them.
\<close>

theorem other_files_untouched:
  "(files w q = Some (File d) \<and> q \<notin> set output_paths \<longrightarrow> files (snd (run w)) q = Some (File d))
   \<and> (files w source_path = Some (File d') \<longrightarrow> files (snd (run w)) source_path = Some (File d'))"
proof -
  have r: "run w = (fst (run w), snd (run w))" by simp
  have k: "files (snd (run w)) p = Some (File x)"
    if "files w p = Some (File x)" "p \<notin> set output_paths" for p x
  proof -
    have "Write p \<notin> set (since w (snd (run w)))"
      using run_writes [OF r] that(2) by blast
    then show ?thesis using evolves_file_kept [OF run_evolves [OF r] that(1)] by simp
  qed
  show ?thesis using k source_not_output by blast
qed

lemma photo_source:
  "files photo_world source_path = Some (File (Encoded JPEG (640, 480) (Pixels 0)))"
  by code_simp

theorem other_files_untouched_witness:
  "files photo_world source_path = Some (File (Encoded JPEG (640, 480) (Pixels 0)))
   \<and> source_path \<notin> set output_paths
   \<and> files (snd (run photo_world)) source_path = Some (File (Encoded JPEG (640, 480) (Pixels 0)))"
  using other_files_untouched [of photo_world source_path "Encoded JPEG (640, 480) (Pixels 0)"]
    photo_source source_not_output
  by simp

lemma files_close: "files (Image_close w) = files w"
  by (simp add: Image_close_def)

lemma resolve_close: "resolve (Image_close w) p = resolve w p"
  by (simp add: resolve_def Image_close_def)

lemma table_distinct: "distinct (map fst icon_sizes)"
  by code_simp

lemma output_paths_distinct: "distinct output_paths \<and> length output_paths = 5"
  by code_simp

lemma output_names:
  "\<forall>e \<in> set icon_sizes.
     last (out_path (fst e)) = ''ic_launcher.png'' \<and> last (butlast (out_path (fst e))) = fst e"
  by (simp add: out_path_def butlast_append)



lemma run_done:
  assumes "run w = (None, w')" "os_path_exists w original_image_path"
    "files w source_path = Some (File (Encoded f sz px))" "e \<in> set icon_sizes"
  shows "resolve w' (output_filename (fst e)) = Inr (out_path (fst e))
    \<and> files w' (out_path (fst e)) =
        Some (File (Encoded PNG (snd e) (Resampled LANCZOS (0, 0, fst sz, snd sz) (snd e) px)))"
  using assms(1)
proof (cases rule: run_cases)
  case missing
  then show ?thesis using assms(2) by simp
next
  case (unreadable x)
  then show ?thesis by simp
next
  case (ran img w1 w2)
  have "\<exists>g. files w source_path = Some (File (Encoded g (im_size img) (im_data img)))"
    using Image_open_ok [OF ran(2)] by (simp add: lexical_source)
  then have img: "im_size img = sz" "im_data img = px" using assms(3) by auto
  have "resolve w2 (output_filename (fst e)) = Inr (out_path (fst e))
      \<and> files w2 (out_path (fst e)) = Some (File (resampled img (snd e)))"
    using for_icons_done [OF ran(3) _ table_distinct] assms(4) by blast
  moreover have "w' = print MsgDone (Image_close w2)" using ran(4) by simp
  ultimately show ?thesis
    using img by (simp add: resolve_print resolve_close files_print files_close resampled_def)
qed

lemma run_written:
  assumes "run w = (None, w')" "os_path_exists w original_image_path"
  shows "written (since w w') = output_paths"
proof -
  have "io_events (since w w') =
      Open source_path # map (\<lambda>e. Write (out_path (fst e))) icon_sizes @ [Close]"
    using assms(1) assms(2) by (cases rule: run_io) auto
  then have "written (io_events (since w w')) = output_paths"
    by (simp add: written_append written_map_Write output_paths_def)
  then show ?thesis by (simp add: written_io_events)
qed



text \<open>
  C2, as the code has it. The claim promises the five files to every run whose source
  exists and opens; the script handles no failure of a later call, so a run can open the
  source and still end by an exception with nothing written. A run that ends without an
  exception writes exactly the five output paths, each once: they are distinct, each is
  named \<^verbatim>\<open>ic_launcher.png\<close> in a directory named by its label, and each holds a
  PNG of the size the table gives for that label.
\<close>

theorem five_icons_when_no_call_raises:
  assumes "os_path_exists w original_image_path" "fst (run w) = None"
  shows "written (since w (snd (run w))) = output_paths
    \<and> distinct output_paths \<and> length output_paths = 5 \<and> length icon_sizes = 5
    \<and> (\<forall>e \<in> set icon_sizes.
          last (out_path (fst e)) = ''ic_launcher.png''
          \<and> last (butlast (out_path (fst e))) = fst e
          \<and> (\<exists>px. files (snd (run w)) (out_path (fst e)) = Some (File (Encoded PNG (snd e) px))))"
proof -
  have r: "run w = (None, snd (run w))" using assms(2) by (metis prod.collapse)
  obtain img w1 where o: "Image_open original_image_path w = (Inr img, w1)"
    using r assms(1) by (cases rule: run_cases) auto
  obtain g where src: "files w source_path = Some (File (Encoded g (im_size img) (im_data img)))"
    using Image_open_ok [OF o] by (auto simp: lexical_source)
  have "\<exists>px. files (snd (run w)) (out_path (fst e)) = Some (File (Encoded PNG (snd e) px))"
    if "e \<in> set icon_sizes" for e
    using run_done [OF r assms(1) src that] by blast
  then show ?thesis
    using run_written [OF r assms(1)] output_paths_distinct output_names
    by (simp add: icon_sizes_def)
qed

theorem five_icons_when_no_call_raises_witness:
  "os_path_exists photo_world original_image_path \<and> fst (run photo_world) = None
   \<and> written (since photo_world (snd (run photo_world))) = output_paths
   \<and> (\<exists>px. files (snd (run photo_world)) (out_path ''mipmap-hdpi'')
         = Some (File (Encoded PNG (72, 72) px)))"
proof -
  have h: "os_path_exists photo_world original_image_path" "fst (run photo_world) = None"
    using photo_run_ok by simp_all
  have m: "(''mipmap-hdpi'', (72, 72)) \<in> set icon_sizes" by (simp add: icon_sizes_def)
  show ?thesis
    using five_icons_when_no_call_raises [OF h] h m by fastforce
qed

theorem five_icons_counterexample:
  "os_path_exists blocked_world original_image_path
   \<and> \<not> isl (fst (Image_open original_image_path blocked_world))
   \<and> fst (run blocked_world) = Some NotADirectoryError
   \<and> written (since blocked_world (snd (run blocked_world))) = []
   \<and> files (snd (run blocked_world)) (out_path ''mipmap-xxxhdpi'') = None"
  by code_simp







text \<open>
  C8, as the code has it. The encoder is chosen by the extension of the output name,
  which is always \<^verbatim>\<open>.png\<close>: each output of a run that ends without an exception is
  PNG-encoded whatever the encoding of the source, so it has the source's encoding
  exactly when the source is a PNG.
\<close>

theorem icon_is_png_whatever_the_source:
  assumes "os_path_exists w original_image_path" "fst (run w) = None"
    "files w source_path = Some (File (Encoded f sz px))" "e \<in> set icon_sizes"
  shows "registered_extension (map ascii_lower (splitext_ext (output_filename (fst e)))) = Some PNG
    \<and> encoding (files (snd (run w)) (out_path (fst e))) = Some PNG
    \<and> (encoding (files (snd (run w)) (out_path (fst e))) = encoding (files w source_path)
         \<longleftrightarrow> f = PNG)"
proof -
  have r: "run w = (None, snd (run w))" using assms(2) by (metis prod.collapse)
  show ?thesis
    using run_done [OF r assms(1,3,4)] output_format assms(3,4) by auto
qed

theorem icon_is_png_whatever_the_source_witness:
  "os_path_exists photo_world original_image_path \<and> fst (run photo_world) = None
   \<and> files photo_world source_path = Some (File (Encoded JPEG (640, 480) (Pixels 0)))
   \<and> (''mipmap-xxxhdpi'', (192, 192)) \<in> set icon_sizes
   \<and> encoding (files (snd (run photo_world)) (out_path ''mipmap-xxxhdpi'')) = Some PNG"
proof -
  have h: "os_path_exists photo_world original_image_path" "fst (run photo_world) = None"
    using photo_run_ok by simp_all
  have m: "(''mipmap-xxxhdpi'', (192, 192)) \<in> set icon_sizes" by (simp add: icon_sizes_def)
  show ?thesis
    using icon_is_png_whatever_the_source [OF h photo_source m] h photo_source m by simp
qed

theorem same_format_counterexample:
  "os_path_exists photo_world original_image_path \<and> fst (run photo_world) = None
   \<and> encoding (files photo_world source_path) = Some JPEG
   \<and> encoding (files (snd (run photo_world)) (out_path ''mipmap-xxxhdpi'')) = Some PNG
   \<and> encoding (files (snd (run photo_world)) (out_path ''mipmap-xxxhdpi''))
       \<noteq> encoding (files photo_world source_path)"
proof -
  have h: "os_path_exists photo_world original_image_path" "fst (run photo_world) = None"
    using photo_run_ok by simp_all
  have r: "run photo_world = (None, snd (run photo_world))" using h(2) by (metis prod.collapse)
  have m: "(''mipmap-xxxhdpi'', (192, 192)) \<in> set icon_sizes" by (simp add: icon_sizes_def)
  show ?thesis
    using run_done [OF r h(1) photo_source m] h photo_source by simp
qed











end
